theory Spec2Isabelle
  imports Main
begin

section \<open>Data model\<close>

text \<open>
  A Python \<open>str\<close> is a sequence of Unicode code points; it is modelled as the list of
  its code points (natural numbers), so that characters beyond Latin-1 exist in the model.
  A \<open>bytes\<close> value is a list of 8-bit characters. \<open>str\<close> turns an ASCII literal of the
  source into the string it denotes.
\<close>

type_synonym pystr = "nat list"

type_synonym bytes = "char list"

definition str :: "string \<Rightarrow> pystr" where
  "str s = map of_char s"

datatype error = ValueError | KeyError | IndexError | UnicodeEncodeError

text \<open>The module constants (lines 6 to 20 of the script).\<close>

definition PAGE_WIDTH :: int where "PAGE_WIDTH = 612"
definition PAGE_HEIGHT :: int where "PAGE_HEIGHT = 792"
definition MARGIN_X :: int where "MARGIN_X = 54"
definition MARGIN_TOP :: int where "MARGIN_TOP = 54"
definition MARGIN_BOTTOM :: int where "MARGIN_BOTTOM = 54"
definition TITLE_SIZE :: int where "TITLE_SIZE = 18"
definition HEADING_SIZE :: int where "HEADING_SIZE = 12"
definition BODY_SIZE :: int where "BODY_SIZE = 11"
definition LEADING :: int where "LEADING = 14"
definition MAX_CHARS_BODY :: int where "MAX_CHARS_BODY = 90"
definition MAX_CHARS_BODY_INDENT :: int where "MAX_CHARS_BODY_INDENT = 86"

section \<open>Text wrapping\<close>

text \<open>
  \<open>wrap(text, width)\<close> calls the standard library:
  \<open>textwrap.wrap(text, width=width, break_long_words=False, break_on_hyphens=False)\<close>,
  all other options at their defaults (\<open>expand_tabs\<close>, \<open>replace_whitespace\<close>,
  \<open>drop_whitespace\<close> true, \<open>tabsize = 8\<close>, empty indents, \<open>max_lines = None\<close>,
  \<open>fix_sentence_endings\<close> false). The definitions below follow the methods of
  \<open>textwrap.TextWrapper\<close> under exactly these options, branch by branch.
\<close>

subsection \<open>Character classes and string primitives\<close>

text \<open>\<open>textwrap._whitespace = '\t\n\x0b\x0c\r '\<close>.\<close>

definition whitespace :: "nat \<Rightarrow> bool" where
  "whitespace c \<longleftrightarrow> c = 9 \<or> c = 10 \<or> c = 11 \<or> c = 12 \<or> c = 13 \<or> c = 32"

text \<open>
  \<open>str.isspace\<close> for one character: the code points Python treats as whitespace in
  \<open>str.strip()\<close> and \<open>str.split()\<close>.
\<close>

definition isspace :: "nat \<Rightarrow> bool" where
  "isspace c \<longleftrightarrow>
     (9 \<le> c \<and> c \<le> 13) \<or> (28 \<le> c \<and> c \<le> 32) \<or> c = 0x85 \<or> c = 0xA0 \<or> c = 0x1680 \<or>
     (0x2000 \<le> c \<and> c \<le> 0x200A) \<or> c = 0x2028 \<or> c = 0x2029 \<or> c = 0x202F \<or>
     c = 0x205F \<or> c = 0x3000"

text \<open>\<open>s.strip()\<close>: whitespace removed at both ends.\<close>

definition strip :: "pystr \<Rightarrow> pystr" where
  "strip s = rev (dropWhile isspace (rev (dropWhile isspace s)))"

text \<open>
  \<open>s.expandtabs(tabsize)\<close>: a tab becomes the spaces up to the next tab stop (at least
  one when \<open>tabsize > 0\<close>); the column restarts after a line feed or a carriage return.
\<close>

fun expandtabs_from :: "nat \<Rightarrow> nat \<Rightarrow> pystr \<Rightarrow> pystr" where
  "expandtabs_from tabsize line_pos [] = []"
| "expandtabs_from tabsize line_pos (ch # s) =
     (if ch = 9 then
        (if tabsize > 0 then
           (let incr = tabsize - line_pos mod tabsize
            in replicate incr 32 @ expandtabs_from tabsize (line_pos + incr) s)
         else expandtabs_from tabsize line_pos s)
      else ch # expandtabs_from tabsize (if ch = 10 \<or> ch = 13 then 0 else line_pos + 1) s)"

definition expandtabs :: "nat \<Rightarrow> pystr \<Rightarrow> pystr" where
  "expandtabs tabsize s = expandtabs_from tabsize 0 s"

text \<open>\<open>text.translate(unicode_whitespace_trans)\<close>: each whitespace character becomes a space.\<close>

definition translate_whitespace :: "pystr \<Rightarrow> pystr" where
  "translate_whitespace s = map (\<lambda>c. if whitespace c then 32 else c) s"

definition munge_whitespace :: "pystr \<Rightarrow> pystr" where
  "munge_whitespace s = translate_whitespace (expandtabs 8 s)"

subsection \<open>Splitting into chunks\<close>

text \<open>
  \<open>wordsep_simple_re.split(text)\<close> for the pattern \<open>([\t\n\x0b\x0c\r ]+)\<close>: the text
  before the first maximal run of whitespace, that run (the pattern has a capturing
  group), and so on; the pieces before the first and after the last run may be empty.
\<close>

function wordsep_simple_re_split :: "pystr \<Rightarrow> pystr list" where
  "wordsep_simple_re_split s =
     (let before = takeWhile (\<lambda>c. \<not> whitespace c) s;
          rest = dropWhile (\<lambda>c. \<not> whitespace c) s
      in if rest = [] then [before]
         else before # takeWhile whitespace rest #
              wordsep_simple_re_split (dropWhile whitespace rest))"
  by pat_completeness auto
termination
proof (relation "measure length")
  show "wf (measure length)" by simp
next
  fix s :: pystr and before rest
  assume r: "rest = dropWhile (\<lambda>c. \<not> whitespace c) s" and ne: "rest \<noteq> []"
  from ne obtain c cs where rc: "rest = c # cs" by (cases rest) auto
  from r rc have "whitespace c"
    by (metis hd_dropWhile list.sel(1) ne)
  then have "length (dropWhile whitespace rest) \<le> length cs"
    by (simp add: rc length_dropWhile_le)
  moreover have "length rest \<le> length s"
    by (simp add: r length_dropWhile_le)
  ultimately show "(dropWhile whitespace rest, s) \<in> measure length"
    by (simp add: rc)
qed

declare wordsep_simple_re_split.simps [simp del]

text \<open>\<open>_split\<close> with \<open>break_on_hyphens\<close> false: the pieces that are not empty.\<close>

definition split_text :: "pystr \<Rightarrow> pystr list" where
  "split_text s = filter (\<lambda>c. c \<noteq> []) (wordsep_simple_re_split s)"

definition split_chunks :: "pystr \<Rightarrow> pystr list" where
  "split_chunks s = split_text (munge_whitespace s)"

subsection \<open>Filling lines\<close>

text \<open>
  \<open>_wrap_chunks\<close> reverses the chunk list and uses it as a stack, \<open>chunks[-1]\<close> being the
  next chunk. The model keeps the chunks in text order: the head of the list is the top of
  that stack, \<open>chunks.pop()\<close> and \<open>del chunks[-1]\<close> remove the head.

  The inner \<open>while chunks\<close> loop: chunks are moved to the current line as long as they fit.
\<close>

fun fit_chunks :: "pystr list \<Rightarrow> pystr list \<Rightarrow> int \<Rightarrow> int \<Rightarrow> pystr list \<times> pystr list \<times> int" where
  "fit_chunks [] cur_line cur_len width = ([], cur_line, cur_len)"
| "fit_chunks (c # chunks) cur_line cur_len width =
     (let l = int (length c)
      in if cur_len + l \<le> width
         then fit_chunks chunks (cur_line @ [c]) (cur_len + l) width
         else (c # chunks, cur_line, cur_len))"

text \<open>
  \<open>_handle_long_word\<close> with \<open>break_long_words\<close> false: the word goes on the current line
  only if that line is still empty. It is called with a chunk on the stack.
\<close>

fun handle_long_word :: "pystr list \<Rightarrow> pystr list \<Rightarrow> pystr list \<times> pystr list" where
  "handle_long_word (c # reversed_chunks) [] = (reversed_chunks, [c])"
| "handle_long_word reversed_chunks cur_line = (reversed_chunks, cur_line)"

text \<open>One pass of the outer \<open>while chunks\<close> loop, entered with a chunk on the stack.\<close>

definition wrap_chunks_body :: "pystr list \<Rightarrow> pystr list \<Rightarrow> int \<Rightarrow> pystr list \<times> pystr list" where
  "wrap_chunks_body chunks lines width =
     (let chunks1 = (if strip (hd chunks) = [] \<and> lines \<noteq> [] then tl chunks else chunks);
          (chunks2, cur_line, cur_len) = fit_chunks chunks1 [] 0 width;
          (chunks3, cur_line3) =
             (if chunks2 \<noteq> [] \<and> int (length (hd chunks2)) > width
              then handle_long_word chunks2 cur_line else (chunks2, cur_line));
          cur_line4 =
             (if cur_line3 \<noteq> [] \<and> strip (last cur_line3) = [] then butlast cur_line3
              else cur_line3)
      in (chunks3, if cur_line4 \<noteq> [] then lines @ [concat cur_line4] else lines))"

text \<open>
  Termination of the outer loop rests on two facts: the inner loop moves a prefix of the
  chunks to the line, and one pass of the outer loop leaves fewer chunks than it found.
\<close>

lemma fit_chunks_spec:
  "fit_chunks chunks cur_line cur_len width = (rest, cur', len') \<Longrightarrow>
     \<exists>taken. chunks = taken @ rest \<and> cur' = cur_line @ taken \<and>
       len' = cur_len + int (length (concat taken)) \<and>
       (taken \<noteq> [] \<longrightarrow> len' \<le> width) \<and>
       (rest \<noteq> [] \<longrightarrow> width < len' + int (length (hd rest)))"
proof (induction chunks arbitrary: cur_line cur_len)
  case Nil
  then show ?case by simp
next
  case (Cons c chunks)
  show ?case
  proof (cases "cur_len + int (length c) \<le> width")
    case True
    with Cons.prems have
      "fit_chunks chunks (cur_line @ [c]) (cur_len + int (length c)) width = (rest, cur', len')"
      by simp
    from Cons.IH [OF this] obtain taken where t:
      "chunks = taken @ rest" "cur' = (cur_line @ [c]) @ taken"
      "len' = cur_len + int (length c) + int (length (concat taken))"
      "taken \<noteq> [] \<longrightarrow> len' \<le> width"
      "rest \<noteq> [] \<longrightarrow> width < len' + int (length (hd rest))"
      by blast
    have "len' \<le> width"
    proof (cases "taken = []")
      case True
      with t(3) \<open>cur_len + int (length c) \<le> width\<close> show ?thesis by simp
    next
      case False
      with t(4) show ?thesis by simp
    qed
    with t show ?thesis
      by (intro exI [of _ "c # taken"]) simp
  next
    case False
    with Cons.prems have "rest = c # chunks" "cur' = cur_line" "len' = cur_len"
      by simp_all
    with False show ?thesis
      by (intro exI [of _ "[]"]) simp
  qed
qed

lemma wrap_chunks_body_shorter:
  assumes "chunks \<noteq> []"
  shows "length (fst (wrap_chunks_body chunks lines width)) < length chunks"
proof -
  define chunks1 where
    "chunks1 = (if strip (hd chunks) = [] \<and> lines \<noteq> [] then tl chunks else chunks)"
  obtain chunks2 cur_line cur_len where f:
    "fit_chunks chunks1 [] 0 width = (chunks2, cur_line, cur_len)"
    by (cases "fit_chunks chunks1 [] 0 width") auto
  from fit_chunks_spec [OF f] obtain taken where t:
    "chunks1 = taken @ chunks2" "cur_line = taken"
    "cur_len = int (length (concat taken))"
    "chunks2 \<noteq> [] \<longrightarrow> width < cur_len + int (length (hd chunks2))"
    by auto
  define r where
    "r = (if chunks2 \<noteq> [] \<and> int (length (hd chunks2)) > width
          then handle_long_word chunks2 cur_line else (chunks2, cur_line))"
  have fst_body: "fst (wrap_chunks_body chunks lines width) = fst r"
    by (simp add: wrap_chunks_body_def chunks1_def [symmetric] f r_def [symmetric]
        Let_def split: prod.splits)
  have len1: "length chunks1 \<le> length chunks"
    by (simp add: chunks1_def)
  have strict1: "chunks1 \<noteq> chunks \<Longrightarrow> length chunks1 < length chunks"
    using assms by (auto simp: chunks1_def split: if_splits)
  have len2: "length chunks2 \<le> length chunks1"
    by (simp add: t(1))
  have lenr: "length (fst r) \<le> length chunks2"
    by (cases chunks2; cases cur_line) (auto simp: r_def)
  show ?thesis
  proof (cases "taken = []")
    case False
    then have "length chunks2 < length chunks1"
      by (simp add: t(1))
    with len1 lenr show ?thesis
      by (simp add: fst_body)
  next
    case True
    show ?thesis
    proof (cases "chunks2 = []")
      case True
      with \<open>taken = []\<close> t(1) have "chunks1 = []" by simp
      with assms have "chunks1 \<noteq> chunks" by auto
      from strict1 [OF this] len2 lenr show ?thesis
        by (simp add: fst_body)
    next
      case False
      then obtain c cs where c: "chunks2 = c # cs" by (cases chunks2) auto
      with t True have "width < int (length c)" by simp
      with c True t(2) have "fst r = cs"
        by (simp add: r_def)
      with c len1 len2 show ?thesis
        by (simp add: fst_body)
    qed
  qed
qed

text \<open>The outer \<open>while chunks\<close> loop.\<close>

function wrap_loop :: "pystr list \<Rightarrow> pystr list \<Rightarrow> int \<Rightarrow> pystr list" where
  "wrap_loop [] lines width = lines"
| "wrap_loop (c # chunks) lines width =
     (let (chunks', lines') = wrap_chunks_body (c # chunks) lines width
      in wrap_loop chunks' lines' width)"
  by pat_completeness auto
termination
proof (relation "measure (\<lambda>(chunks, lines, width). length chunks)")
  show "wf (measure (\<lambda>(chunks, lines, width). length chunks))" by simp
next
  fix c :: pystr and chunks lines :: "pystr list" and width :: int and x chunks' lines'
  assume "x = wrap_chunks_body (c # chunks) lines width" "(chunks', lines') = x"
  then have "chunks' = fst (wrap_chunks_body (c # chunks) lines width)"
    by (metis fst_conv)
  with wrap_chunks_body_shorter [of "c # chunks" lines width]
  show "((chunks', lines', width), (c # chunks, lines, width))
          \<in> measure (\<lambda>(chunks, lines, width). length chunks)"
    by simp
qed

text \<open>\<open>_wrap_chunks\<close>: a width that is not positive raises \<open>ValueError\<close>.\<close>

definition wrap_chunks :: "pystr list \<Rightarrow> int \<Rightarrow> error + pystr list" where
  "wrap_chunks chunks width =
     (if width \<le> 0 then Inl ValueError else Inr (wrap_loop chunks [] width))"

text \<open>\<open>wrap\<close> (line 23 of the script), through \<open>TextWrapper.wrap\<close>.\<close>

definition wrap :: "pystr \<Rightarrow> int \<Rightarrow> error + pystr list" where
  "wrap s width = wrap_chunks (split_chunks s) width"

section \<open>PDF text escaping\<close>

text \<open>
  \<open>s.replace(old, new)\<close> for a pattern \<open>old\<close> of one character: every occurrence is
  replaced.
\<close>

definition replace_char :: "nat \<Rightarrow> pystr \<Rightarrow> pystr \<Rightarrow> pystr" where
  "replace_char old new s = concat (map (\<lambda>c. if c = old then new else [c]) s)"

text \<open>
  \<open>escape_pdf_text\<close> (line 27): three replacements in sequence, the backslash (code point
  92) first, then the opening (40) and the closing (41) parenthesis.
\<close>

definition escape_pdf_text :: "pystr \<Rightarrow> pystr" where
  "escape_pdf_text s =
     replace_char 41 [92, 41] (replace_char 40 [92, 40] (replace_char 92 [92, 92] s))"

section \<open>Layout\<close>

text \<open>A placement record, the dictionary that \<open>add_text\<close> appends (line 31).\<close>

record placement =
  pl_text :: pystr
  pl_x :: int
  pl_y :: int
  pl_font :: pystr
  pl_size :: int

definition add_text :: "placement list \<Rightarrow> pystr \<Rightarrow> int \<Rightarrow> int \<Rightarrow> pystr \<Rightarrow> int \<Rightarrow> placement list" where
  "add_text lines txt x y font sz =
     lines @ [\<lparr>pl_text = txt, pl_x = x, pl_y = y, pl_font = font, pl_size = sz\<rparr>]"

text \<open>
  A section dictionary, by its \<open>"type"\<close>: \<open>{"type": "title", "text"}\<close>,
  \<open>{"type": "section", "title", "body"}\<close> and \<open>{"type": "bullets", "title", "items"}\<close>.
\<close>

datatype section_dict =
  Title pystr
| Section pystr "pystr list"
| Bullets pystr "pystr list"

text \<open>Lines 127 to 129: the body lines of a plain section.\<close>

fun body_loop :: "placement list \<Rightarrow> int \<Rightarrow> pystr list \<Rightarrow> placement list \<times> int" where
  "body_loop lines current_y [] = (lines, current_y)"
| "body_loop lines current_y (line # body) =
     body_loop (add_text lines line MARGIN_X current_y (str ''Helvetica'') BODY_SIZE)
       (current_y - LEADING) body"

text \<open>Lines 134 to 137: the wrapped lines of one bullet item, \<open>i\<close> counting from 0.\<close>

fun wrapped_loop :: "placement list \<Rightarrow> int \<Rightarrow> nat \<Rightarrow> pystr list \<Rightarrow> placement list \<times> int" where
  "wrapped_loop lines current_y i [] = (lines, current_y)"
| "wrapped_loop lines current_y i (line # wrapped) =
     (let prefix = (if i = 0 then str ''- '' else str ''  '')
      in wrapped_loop
           (add_text lines (prefix @ line) MARGIN_X current_y (str ''Helvetica'') BODY_SIZE)
           (current_y - LEADING) (i + 1) wrapped)"

text \<open>Lines 132 to 137: the items of a bullet list, each wrapped on its own.\<close>

fun items_loop :: "placement list \<Rightarrow> int \<Rightarrow> pystr list \<Rightarrow> error + placement list \<times> int" where
  "items_loop lines current_y [] = Inr (lines, current_y)"
| "items_loop lines current_y (item # items) =
     (case wrap item MAX_CHARS_BODY_INDENT of
        Inl e \<Rightarrow> Inl e
      | Inr wrapped \<Rightarrow>
          (case wrapped_loop lines current_y 0 wrapped of
             (lines', current_y') \<Rightarrow> items_loop lines' current_y' items))"

text \<open>
  Lines 122 to 138, the body of the loop over \<open>sections[1:]\<close> up to the overflow check.
  \<open>section["title"]\<close> raises \<open>KeyError\<close> on a title dictionary, which has no such key.
\<close>

fun layout_section :: "placement list \<Rightarrow> int \<Rightarrow> section_dict \<Rightarrow> error + placement list \<times> int" where
  "layout_section lines current_y (Title t) = Inl KeyError"
| "layout_section lines current_y (Section title body) =
     (case body_loop
             (add_text lines title MARGIN_X current_y (str ''Helvetica-Bold'') HEADING_SIZE)
             (current_y - 16) body of
        (lines', current_y') \<Rightarrow> Inr (lines', current_y' - 4))"
| "layout_section lines current_y (Bullets title items) =
     (case items_loop
             (add_text lines title MARGIN_X current_y (str ''Helvetica-Bold'') HEADING_SIZE)
             (current_y - 16) items of
        Inl e \<Rightarrow> Inl e
      | Inr (lines', current_y') \<Rightarrow> Inr (lines', current_y' - 4))"

text \<open>Lines 121 to 142: the loop over the sections, left by \<open>break\<close> on overflow.\<close>

fun sections_loop :: "placement list \<Rightarrow> int \<Rightarrow> section_dict list \<Rightarrow> error + placement list \<times> int" where
  "sections_loop lines current_y [] = Inr (lines, current_y)"
| "sections_loop lines current_y (section # sections) =
     (case layout_section lines current_y section of
        Inl e \<Rightarrow> Inl e
      | Inr (lines', current_y') \<Rightarrow>
          if current_y' < MARGIN_BOTTOM then Inr (lines', current_y')
          else sections_loop lines' current_y' sections)"

text \<open>
  Lines 113 to 142. \<open>sections[0]\<close> raises \<open>IndexError\<close> on an empty list, and
  \<open>sections[0]["text"]\<close> raises \<open>KeyError\<close> unless the first dictionary is a title.
  The result is the list \<open>lines\<close> together with the final cursor.
\<close>

definition layout_state :: "section_dict list \<Rightarrow> error + placement list \<times> int" where
  "layout_state sections =
     (case sections of
        [] \<Rightarrow> Inl IndexError
      | Title t # rest \<Rightarrow>
          sections_loop
            (add_text [] t MARGIN_X (PAGE_HEIGHT - MARGIN_TOP) (str ''Helvetica-Bold'') TITLE_SIZE)
            (PAGE_HEIGHT - MARGIN_TOP - 22) rest
      | _ # rest \<Rightarrow> Inl KeyError)"

definition layout :: "section_dict list \<Rightarrow> error + placement list" where
  "layout sections = map_sum id fst (layout_state sections)"

section \<open>PDF serializer\<close>

subsection \<open>Formatting integers\<close>

definition digit_char :: "nat \<Rightarrow> char" where
  "digit_char d = char_of (48 + d)"

text \<open>The decimal digits of a natural number, most significant first.\<close>

function decimal :: "nat \<Rightarrow> string" where
  "decimal n = (if n < 10 then [digit_char n] else decimal (n div 10) @ [digit_char (n mod 10)])"
  by pat_completeness auto
termination
  by (relation "measure id") auto

declare decimal.simps [simp del]

text \<open>\<open>f"{i}"\<close> for an integer.\<close>

definition format_int :: "int \<Rightarrow> string" where
  "format_int i = (if i < 0 then CHR ''-'' # decimal (nat (- i)) else decimal (nat i))"

text \<open>\<open>f"{i:010d}"\<close>: zeros after the sign up to a width of ten, never truncating.\<close>

definition format_010d :: "int \<Rightarrow> string" where
  "format_010d i =
     (if i < 0
      then CHR ''-'' # replicate (9 - length (decimal (nat (- i)))) CHR ''0'' @ decimal (nat (- i))
      else replicate (10 - length (decimal (nat i))) CHR ''0'' @ decimal (nat i))"

subsection \<open>Content stream\<close>

text \<open>Lines 147 to 154: the text operators of one placement, as a \<open>str\<close>.\<close>

definition content_item :: "placement \<Rightarrow> pystr" where
  "content_item line =
     (let txt = escape_pdf_text (pl_text line)
      in str ''BT\<newline>'' @
         str ''/'' @ pl_font line @ str '' '' @ str (format_int (pl_size line)) @ str '' Tf\<newline>'' @
         str ''1 0 0 1 '' @ str (format_int (pl_x line)) @ str '' '' @
           str (format_int (pl_y line)) @ str '' Tm\<newline>'' @
         str ''('' @ txt @ str '') Tj\<newline>'' @
         str ''ET\<newline>'')"

definition content :: "placement list \<Rightarrow> pystr list" where
  "content lines = map content_item lines"

text \<open>
  \<open>s.encode("latin-1", errors)\<close>: a code point below 256 is its own byte; any other one
  raises \<open>UnicodeEncodeError\<close> under \<open>"strict"\<close> and becomes \<open>?\<close> under \<open>"replace"\<close>.
\<close>

datatype errors = Strict | Replace

fun encode_latin1 :: "errors \<Rightarrow> pystr \<Rightarrow> error + bytes" where
  "encode_latin1 mode [] = Inr []"
| "encode_latin1 mode (c # s) =
     (if c < 256 then map_sum id ((#) (char_of c)) (encode_latin1 mode s)
      else (case mode of
              Strict \<Rightarrow> Inl UnicodeEncodeError
            | Replace \<Rightarrow> map_sum id ((#) CHR ''?'') (encode_latin1 mode s)))"

text \<open>Line 156.\<close>

definition content_stream :: "placement list \<Rightarrow> error + bytes" where
  "content_stream lines = encode_latin1 Replace (concat (content lines))"

subsection \<open>Objects, cross-reference table and trailer\<close>

text \<open>
  Lines 159 to 187. The formatted parts hold digits and ASCII text only, so their
  \<open>encode("ascii")\<close> is the same characters as bytes.
\<close>

definition objects :: "bytes \<Rightarrow> bytes list" where
  "objects stream =
     [''1 0 obj\<newline><< /Type /Catalog /Pages 2 0 R >>\<newline>endobj\<newline>'',
      ''2 0 obj\<newline><< /Type /Pages /Kids [3 0 R] /Count 1 >>\<newline>endobj\<newline>'',
      ''3 0 obj\<newline>'' @
        (''<< /Type /Page /Parent 2 0 R /MediaBox [0 0 '' @ format_int PAGE_WIDTH @ '' '' @
           format_int PAGE_HEIGHT @ ''] '') @
        ''/Resources << /Font << /Helvetica 4 0 R /Helvetica-Bold 5 0 R >> >> '' @
        ''/Contents 6 0 R >>\<newline>endobj\<newline>'',
      ''4 0 obj\<newline><< /Type /Font /Subtype /Type1 /BaseFont /Helvetica >>\<newline>endobj\<newline>'',
      ''5 0 obj\<newline><< /Type /Font /Subtype /Type1 /BaseFont /Helvetica-Bold >>\<newline>endobj\<newline>'',
      ''6 0 obj\<newline>'' @
        (''<< /Length '' @ format_int (int (length stream)) @ '' >>\<newline>stream\<newline>'') @
        stream @
        ''endstream\<newline>endobj\<newline>'']"

text \<open>
  Lines 190 to 194: before an object is appended, the number of bytes written so far is
  recorded. The state is \<open>(xref_positions, output)\<close>; a position is a sum of lengths.
\<close>

fun xref_loop :: "bytes list \<Rightarrow> nat list \<times> bytes list \<Rightarrow> nat list \<times> bytes list" where
  "xref_loop [] (xref_positions, output) = (xref_positions, output)"
| "xref_loop (obj # objs) (xref_positions, output) =
     xref_loop objs (xref_positions @ [sum_list (map length output)], output @ [obj])"

definition xref_positions :: "bytes list \<Rightarrow> nat list" where
  "xref_positions objs = fst (xref_loop objs ([], [''%PDF-1.4\<newline>'']))"

definition output_parts :: "bytes list \<Rightarrow> bytes list" where
  "output_parts objs = snd (xref_loop objs ([], [''%PDF-1.4\<newline>'']))"

definition xref_start :: "bytes list \<Rightarrow> nat" where
  "xref_start objs = sum_list (map length (output_parts objs))"

text \<open>Lines 198 to 200.\<close>

definition xref :: "bytes list \<Rightarrow> bytes list" where
  "xref objs =
     [''xref\<newline>'', ''0 '' @ format_int (int (length objs) + 1) @ ''\<newline>'',
      ''0000000000 65535 f \<newline>''] @
     map (\<lambda>pos. format_010d (int pos) @ '' 00000 n \<newline>'') (xref_positions objs)"

text \<open>Lines 202 to 208.\<close>

definition trailer :: "bytes list \<Rightarrow> bytes" where
  "trailer objs =
     ''trailer\<newline>'' @
     (''<< /Size '' @ format_int (int (length objs) + 1) @ '' /Root 1 0 R >>\<newline>'') @
     ''startxref\<newline>'' @
     (format_int (int (xref_start objs)) @ ''\<newline>'') @
     ''%%EOF\<newline>''"

text \<open>Line 210, for a given content stream, and lines 144 to 210 for given placements.\<close>

definition pdf_of_stream :: "bytes \<Rightarrow> bytes" where
  "pdf_of_stream cs =
     (let objs = objects cs in concat (output_parts objs) @ concat (xref objs) @ trailer objs)"

definition pdf_bytes :: "placement list \<Rightarrow> error + bytes" where
  "pdf_bytes lines = map_sum id pdf_of_stream (content_stream lines)"

section \<open>Notions used to state the wrapping properties\<close>







section \<open>Notions used to state the escaping properties\<close>

text \<open>
  \<open>s.replace(old, new)\<close> for a pattern \<open>old\<close> of the two characters \<open>a\<close>, \<open>b\<close> and a
  replacement of the one character \<open>c\<close>: occurrences found from the left, not overlapping.
\<close>

fun replace_pair :: "nat \<Rightarrow> nat \<Rightarrow> nat \<Rightarrow> pystr \<Rightarrow> pystr" where
  "replace_pair a b c (x # y # s) =
     (if x = a \<and> y = b then c # replace_pair a b c s else x # replace_pair a b c (y # s))"
| "replace_pair a b c s = s"

text \<open>
  Reversing the three escape sequences: the replacements of \<open>escape_pdf_text\<close> undone one
  by one, the last one first.
\<close>

definition unescape_pdf_text :: "pystr \<Rightarrow> pystr" where
  "unescape_pdf_text s =
     replace_pair 92 92 92 (replace_pair 92 40 40 (replace_pair 92 41 41 s))"

text \<open>
  A string literal body with no unescaped parenthesis or backslash: read from the left,
  every backslash is followed by a backslash or a parenthesis, which it escapes, and no
  parenthesis stands anywhere else.
\<close>

fun escaped :: "pystr \<Rightarrow> bool" where
  "escaped [] = True"
| "escaped [c] = (c \<noteq> 92 \<and> c \<noteq> 40 \<and> c \<noteq> 41)"
| "escaped (c # d # s) =
     (if c = 92 then (d = 92 \<or> d = 40 \<or> d = 41) \<and> escaped s
      else c \<noteq> 40 \<and> c \<noteq> 41 \<and> escaped (d # s))"

text \<open>One character with a backslash before it if it is a backslash or a parenthesis.\<close>

definition escape_char :: "nat \<Rightarrow> pystr" where
  "escape_char c = (if c = 92 \<or> c = 40 \<or> c = 41 then [92, c] else [c])"

section \<open>Notions used to state the serializer properties\<close>

text \<open>The byte a character is encoded to under \<open>"replace"\<close>.\<close>

definition latin1_replace :: "nat \<Rightarrow> char" where
  "latin1_replace c = (if c < 256 then char_of c else CHR ''?'')"

text \<open>
  Reading a decimal number at the start of a byte string: its value and the bytes after it.
\<close>

definition is_digit :: "char \<Rightarrow> bool" where
  "is_digit c \<longleftrightarrow> (48::nat) \<le> of_char c \<and> of_char c \<le> (57::nat)"

definition digit_value :: "char \<Rightarrow> nat" where
  "digit_value c = of_char c - 48"

definition read_nat :: "bytes \<Rightarrow> nat \<times> bytes" where
  "read_nat bs =
     (foldl (\<lambda>a d. 10 * a + digit_value d) 0 (takeWhile is_digit bs), dropWhile is_digit bs)"

text \<open>The offsets of consecutive parts written from offset \<open>p\<close> on.\<close>

fun offsets :: "nat \<Rightarrow> bytes list \<Rightarrow> nat list" where
  "offsets p [] = []"
| "offsets p (part # parts) = p # offsets (p + length part) parts"

section \<open>Notions used to state the layout properties\<close>

text \<open>
  The baselines of \<open>lines\<close> decrease strictly in list order and all lie above the
  cursor \<open>y\<close>.
\<close>

definition above :: "placement list \<Rightarrow> int \<Rightarrow> bool" where
  "above lines y \<longleftrightarrow>
     sorted_wrt (\<lambda>a b. b < a) (map pl_y lines) \<and> list_all (\<lambda>p. y < pl_y p) lines"



text \<open>A placement of body text, as line 128 builds it.\<close>

definition body_placement :: "pystr \<Rightarrow> int \<Rightarrow> placement" where
  "body_placement line y =
     \<lparr>pl_text = line, pl_x = MARGIN_X, pl_y = y, pl_font = str ''Helvetica'', pl_size = BODY_SIZE\<rparr>"

text \<open>
  Example inputs: a title and one plain section of fifty body lines, which runs below the
  bottom margin; the same followed by one more section; and the placements of the former.
\<close>

definition long_section :: "section_dict list" where
  "long_section = [Title (str ''T''), Section (str ''H'') (replicate 50 (str ''x''))]"


definition long_section_lines :: "placement list" where
  "long_section_lines =
     [\<lparr>pl_text = str ''T'', pl_x = 54, pl_y = 738, pl_font = str ''Helvetica-Bold'', pl_size = 18\<rparr>,
      \<lparr>pl_text = str ''H'', pl_x = 54, pl_y = 716, pl_font = str ''Helvetica-Bold'', pl_size = 12\<rparr>] @
     map (\<lambda>(i, line). body_placement line (700 - 14 * int i))
       (enumerate 0 (replicate 50 (str ''x'')))"

text \<open>A small input with a plain section and a bullet list, and its placements.\<close>

definition small_example :: "section_dict list" where
  "small_example =
     [Title (str ''T''), Section (str ''H'') [str ''a''], Bullets (str ''B'') [str ''c d'']]"

definition small_example_lines :: "placement list" where
  "small_example_lines =
     [\<lparr>pl_text = str ''T'', pl_x = 54, pl_y = 738, pl_font = str ''Helvetica-Bold'', pl_size = 18\<rparr>,
      \<lparr>pl_text = str ''H'', pl_x = 54, pl_y = 716, pl_font = str ''Helvetica-Bold'', pl_size = 12\<rparr>,
      \<lparr>pl_text = str ''a'', pl_x = 54, pl_y = 700, pl_font = str ''Helvetica'', pl_size = 11\<rparr>,
      \<lparr>pl_text = str ''B'', pl_x = 54, pl_y = 682, pl_font = str ''Helvetica-Bold'', pl_size = 12\<rparr>,
      \<lparr>pl_text = str ''- c d'', pl_x = 54, pl_y = 666, pl_font = str ''Helvetica'', pl_size = 11\<rparr>]"

section \<open>Properties of text wrapping\<close>

subsection \<open>Facts about the chunks and the line filler\<close>

lemma split_text_Nil: "split_text [] = []"
  by (simp add: split_text_def wordsep_simple_re_split.simps [of "[]"])

lemma split_text_Cons:
  "split_text (c # s) =
     (if whitespace c
      then takeWhile whitespace (c # s) # split_text (dropWhile whitespace (c # s))
      else takeWhile (\<lambda>c. \<not> whitespace c) (c # s) #
           (let rest = dropWhile (\<lambda>c. \<not> whitespace c) s
            in if rest = [] then []
               else takeWhile whitespace rest # split_text (dropWhile whitespace rest)))"
proof (cases "whitespace c")
  case True
  then show ?thesis
    unfolding split_text_def
    by (subst wordsep_simple_re_split.simps) (simp add: Let_def)
next
  case False
  define rest where "rest = dropWhile (\<lambda>c. \<not> whitespace c) s"
  have "rest \<noteq> [] \<Longrightarrow> takeWhile whitespace rest \<noteq> []"
  proof -
    assume "rest \<noteq> []"
    then have "whitespace (hd rest)"
      unfolding rest_def using hd_dropWhile [of "\<lambda>c. \<not> whitespace c" s] by simp
    with \<open>rest \<noteq> []\<close> show ?thesis
      by (cases rest) auto
  qed
  with False show ?thesis
    unfolding split_text_def
    by (subst wordsep_simple_re_split.simps) (simp add: Let_def rest_def [symmetric])
qed

lemma whitespace_isspace: "whitespace c \<Longrightarrow> isspace c"
  by (auto simp: whitespace_def isspace_def)

lemma all_dropWhile_iff:
  "(\<forall>x\<in>set (dropWhile P s). P x) \<longleftrightarrow> (\<forall>x\<in>set s. P x)"
proof
  assume a: "\<forall>x\<in>set (dropWhile P s). P x"
  show "\<forall>x\<in>set s. P x"
  proof (rule ccontr)
    assume "\<not> (\<forall>x\<in>set s. P x)"
    then have ne: "dropWhile P s \<noteq> []" by simp
    from hd_dropWhile [OF ne] a ne show False
      by (meson hd_in_set)
  qed
next
  assume "\<forall>x\<in>set s. P x"
  then show "\<forall>x\<in>set (dropWhile P s). P x"
    by (meson set_dropWhileD)
qed

lemma strip_empty_iff: "strip s = [] \<longleftrightarrow> (\<forall>c\<in>set s. isspace c)"
  by (simp add: strip_def all_dropWhile_iff)

lemma wrap_chunks_body_spec:
  assumes ne: "chunks \<noteq> []"
    and b: "wrap_chunks_body chunks lines width = (chunks', lines')"
  shows "\<exists>d1 cur d2. chunks = d1 @ cur @ d2 @ chunks' \<and>
           (\<forall>c\<in>set (d1 @ d2). strip c = []) \<and>
           lines' = (if cur = [] then lines else lines @ [concat cur]) \<and>
           (cur = [] \<or> int (length (concat cur)) \<le> width \<or>
            (\<exists>c. cur = [c] \<and> strip c \<noteq> [] \<and> width < int (length c)))"
proof -
  define d1 where "d1 = (if strip (hd chunks) = [] \<and> lines \<noteq> [] then [hd chunks] else [])"
  define chunks1 where
    "chunks1 = (if strip (hd chunks) = [] \<and> lines \<noteq> [] then tl chunks else chunks)"
  have c1: "chunks = d1 @ chunks1" and s1: "\<forall>c\<in>set d1. strip c = []"
    using ne by (auto simp: d1_def chunks1_def)
  obtain chunks2 cur_line cur_len where f:
    "fit_chunks chunks1 [] 0 width = (chunks2, cur_line, cur_len)"
    by (cases "fit_chunks chunks1 [] 0 width") auto
  from fit_chunks_spec [OF f] have t:
    "chunks1 = cur_line @ chunks2"
    "cur_line \<noteq> [] \<longrightarrow> int (length (concat cur_line)) \<le> width"
    by auto
  obtain chunks3 cur_line3 where r:
    "(if chunks2 \<noteq> [] \<and> int (length (hd chunks2)) > width
      then handle_long_word chunks2 cur_line else (chunks2, cur_line)) = (chunks3, cur_line3)"
    by (metis surj_pair)
  define cur_line4 where
    "cur_line4 = (if cur_line3 \<noteq> [] \<and> strip (last cur_line3) = [] then butlast cur_line3
                  else cur_line3)"
  define d2 where
    "d2 = (if cur_line3 \<noteq> [] \<and> strip (last cur_line3) = [] then [last cur_line3] else [])"
  have c4: "cur_line3 = cur_line4 @ d2" and s2: "\<forall>c\<in>set d2. strip c = []"
    by (auto simp: cur_line4_def d2_def)
  from b have res: "chunks' = chunks3"
    "lines' = (if cur_line4 = [] then lines else lines @ [concat cur_line4])"
    by (auto simp: wrap_chunks_body_def chunks1_def [symmetric] f r
        cur_line4_def [symmetric] Let_def)
  have c3: "cur_line @ chunks2 = cur_line3 @ chunks3"
    using r by (cases chunks2; cases cur_line) (auto split: if_splits)
  have bound: "cur_line4 = [] \<or> int (length (concat cur_line4)) \<le> width \<or>
      (\<exists>c. cur_line4 = [c] \<and> strip c \<noteq> [] \<and> width < int (length c))"
  proof (cases "cur_line3 = cur_line")
    case True
    have "length (concat cur_line4) \<le> length (concat cur_line3)"
      by (simp add: c4)
    with t(2) True show ?thesis
      by (cases "cur_line = []") (auto simp: c4)
  next
    case False
    with r obtain c where "cur_line3 = [c]" "width < int (length c)"
      by (cases chunks2; cases cur_line) (auto split: if_splits)
    then show ?thesis
      by (auto simp: cur_line4_def)
  qed
  have "chunks = d1 @ cur_line4 @ d2 @ chunks'"
    using c1 t(1) c3 c4 res(1) by simp
  with s1 s2 res(2) bound show ?thesis
    by (intro exI [of _ d1] exI [of _ cur_line4] exI [of _ d2]) auto
qed

lemma wrap_loop_lines:
  assumes "set chunks \<subseteq> A"
    and "\<forall>l\<in>set lines. int (length l) \<le> width \<or> (l \<in> A \<and> strip l \<noteq> [] \<and> width < int (length l))"
  shows "\<forall>l\<in>set (wrap_loop chunks lines width).
           int (length l) \<le> width \<or> (l \<in> A \<and> strip l \<noteq> [] \<and> width < int (length l))"
  using assms
proof (induction chunks lines width rule: wrap_loop.induct)
  case (1 lines width)
  then show ?case by simp
next
  case (2 c chunks lines width)
  obtain chunks' lines' where b:
    "wrap_chunks_body (c # chunks) lines width = (chunks', lines')"
    by (metis surj_pair)
  from wrap_chunks_body_spec [OF _ b] obtain d1 cur d2 where s:
    "c # chunks = d1 @ cur @ d2 @ chunks'"
    "lines' = (if cur = [] then lines else lines @ [concat cur])"
    "cur = [] \<or> int (length (concat cur)) \<le> width \<or>
      (\<exists>c. cur = [c] \<and> strip c \<noteq> [] \<and> width < int (length c))"
    by auto
  have "set cur \<subseteq> set (d1 @ cur @ d2 @ chunks')" "set chunks' \<subseteq> set (d1 @ cur @ d2 @ chunks')"
    by auto
  with "2.prems"(1) have subA: "set cur \<subseteq> A" "set chunks' \<subseteq> A"
    unfolding s(1) by blast+
  have "\<forall>l\<in>set lines'. int (length l) \<le> width \<or>
      (l \<in> A \<and> strip l \<noteq> [] \<and> width < int (length l))"
    using s(2,3) subA(1) "2.prems"(2) by (auto split: if_splits)
  from "2.IH" [OF b [symmetric] refl subA(2) this] show ?case
    by (simp add: b)
qed

lemma wordsep_last:
  assumes "dropWhile (\<lambda>c. \<not> whitespace c) s = []"
  shows "wordsep_simple_re_split s = [takeWhile (\<lambda>c. \<not> whitespace c) s]"
  by (subst wordsep_simple_re_split.simps) (simp add: assms Let_def)

lemma wordsep_more:
  assumes "dropWhile (\<lambda>c. \<not> whitespace c) s \<noteq> []"
  shows "wordsep_simple_re_split s =
    takeWhile (\<lambda>c. \<not> whitespace c) s #
    takeWhile whitespace (dropWhile (\<lambda>c. \<not> whitespace c) s) #
    wordsep_simple_re_split (dropWhile whitespace (dropWhile (\<lambda>c. \<not> whitespace c) s))"
  using assms by (subst wordsep_simple_re_split.simps) (simp add: Let_def)


lemma wordsep_pieces:
  "c \<in> set (wordsep_simple_re_split s) \<Longrightarrow>
     (\<forall>x\<in>set c. whitespace x) \<or> (\<forall>x\<in>set c. \<not> whitespace x)"
proof (induction s rule: wordsep_simple_re_split.induct)
  case (1 s)
  define rest where "rest = dropWhile (\<lambda>c. \<not> whitespace c) s"
  have tw: "\<forall>x\<in>set (takeWhile P xs). P x" for P :: "nat \<Rightarrow> bool" and xs
    by (meson set_takeWhileD)
  show ?case
  proof (cases "rest = []")
    case True
    with "1.prems" have "c = takeWhile (\<lambda>c. \<not> whitespace c) s"
      by (simp only: wordsep_last rest_def) simp
    with tw [of "\<lambda>c. \<not> whitespace c" s] show ?thesis
      by blast
  next
    case False
    then have ne: "dropWhile (\<lambda>c. \<not> whitespace c) s \<noteq> []"
      unfolding rest_def .
    from "1.prems" have "c \<in> set (takeWhile (\<lambda>c. \<not> whitespace c) s # takeWhile whitespace rest #
         wordsep_simple_re_split (dropWhile whitespace rest))"
      unfolding rest_def wordsep_more [OF ne] .
    then have "c = takeWhile (\<lambda>c. \<not> whitespace c) s \<or> c = takeWhile whitespace rest
        \<or> c \<in> set (wordsep_simple_re_split (dropWhile whitespace rest))"
      by (simp only: set_simps insert_iff)
    then show ?thesis
    proof (elim disjE)
      assume "c \<in> set (wordsep_simple_re_split (dropWhile whitespace rest))"
      with "1.IH" [OF refl rest_def False] show ?thesis .
    next
      assume "c = takeWhile (\<lambda>c. \<not> whitespace c) s"
      with tw [of "\<lambda>c. \<not> whitespace c" s] show ?thesis by blast
    next
      assume "c = takeWhile whitespace rest"
      with tw [of whitespace rest] show ?thesis by blast
    qed
  qed
qed

lemma split_text_chunks:
  assumes "c \<in> set (split_text s)"
  shows "c \<noteq> []" and "(\<forall>x\<in>set c. whitespace x) \<or> (\<forall>x\<in>set c. \<not> whitespace x)"
proof -
  from assms have m: "c \<in> set (wordsep_simple_re_split s)" and ne: "c \<noteq> []"
    by (simp_all add: split_text_def)
  show "c \<noteq> []" by (rule ne)
  from wordsep_pieces [OF m]
  show "(\<forall>x\<in>set c. whitespace x) \<or> (\<forall>x\<in>set c. \<not> whitespace x)" .
qed





lemma wrap_total: "1 \<le> width \<Longrightarrow> wrap s width = Inr (wrap_loop (split_chunks s) [] width)"
  by (simp add: wrap_def wrap_chunks_def)

lemma split_chunks_abcdef: "split_chunks (str ''abcdef'') = [str ''abcdef'']"
  by (simp add: split_chunks_def munge_whitespace_def expandtabs_def
      translate_whitespace_def whitespace_def split_text_Nil split_text_Cons str_def)

lemma wrap_abcdef: "wrap (str ''abcdef'') 3 = Inr [str ''abcdef'']"
  unfolding wrap_def split_chunks_abcdef
  by (simp add: wrap_chunks_def wrap_chunks_body_def strip_def isspace_def str_def)

subsection \<open>Claim C2: the length of the produced lines\<close>

text \<open>
  C2 as stated: for every input string and every width of at least 1, every line produced
  by \<open>wrap(text, width)\<close> has length at most \<open>width\<close>. This fails: the script passes
  \<open>break_long_words=False\<close>, so a word longer than the width is kept whole on a line of
  its own. For the text \<open>abcdef\<close> and width 3 the only line produced is \<open>abcdef\<close>, of
  length 6.
\<close>

theorem wrap_line_length_counterexample:
  "wrap (str ''abcdef'') 3 = Inr [str ''abcdef''] \<and> \<not> int (length (str ''abcdef'')) \<le> 3"
  by (simp add: wrap_abcdef) (simp add: str_def)

text \<open>
  C2 as amended: for every input string and every width of at least 1, \<open>wrap\<close> returns
  normally, and every produced line has length at most \<open>width\<close> unless the line is a
  single word of the text (one chunk of the whitespace-normalised text, free of whitespace
  characters) that is itself longer than \<open>width\<close>.
\<close>

theorem wrap_line_length:
  assumes "1 \<le> width"
  shows "\<exists>lines. wrap s width = Inr lines \<and>
           (\<forall>l\<in>set lines. int (length l) \<le> width \<or>
              (l \<in> set (split_chunks s) \<and> (\<forall>c\<in>set l. \<not> whitespace c) \<and>
               width < int (length l)))"
proof -
  let ?A = "set (split_chunks s)"
  have lines: "\<forall>l\<in>set (wrap_loop (split_chunks s) [] width).
      int (length l) \<le> width \<or> (l \<in> ?A \<and> strip l \<noteq> [] \<and> width < int (length l))"
    by (rule wrap_loop_lines) simp_all
  have word: "\<forall>c\<in>set l. \<not> whitespace c" if "l \<in> ?A" "strip l \<noteq> []" for l
  proof -
    from that(1) have "(\<forall>x\<in>set l. whitespace x) \<or> (\<forall>x\<in>set l. \<not> whitespace x)"
      unfolding split_chunks_def by (rule split_text_chunks(2))
    moreover from that(2) obtain x where "x \<in> set l" "\<not> isspace x"
      by (auto simp: strip_empty_iff)
    then have "\<not> (\<forall>x\<in>set l. whitespace x)"
      using whitespace_isspace by blast
    ultimately show ?thesis by blast
  qed
  from lines word have "\<forall>l\<in>set (wrap_loop (split_chunks s) [] width).
      int (length l) \<le> width \<or>
      (l \<in> ?A \<and> (\<forall>c\<in>set l. \<not> whitespace c) \<and> width < int (length l))"
    by blast
  with wrap_total [OF assms, of s] show ?thesis
    by blast
qed

lemma split_chunks_ab_cdef: "split_chunks (str ''ab cdef'') = [str ''ab'', str '' '', str ''cdef'']"
  by (simp add: split_chunks_def munge_whitespace_def expandtabs_def
      translate_whitespace_def whitespace_def split_text_Nil split_text_Cons str_def)

lemma wrap_ab_cdef: "wrap (str ''ab cdef'') 3 = Inr [str ''ab'', str ''cdef'']"
  unfolding wrap_def split_chunks_ab_cdef
  by (simp add: wrap_chunks_def wrap_chunks_body_def strip_def isspace_def str_def)

theorem wrap_line_length_witness:
  "(1::int) \<le> 3 \<and> wrap (str ''ab cdef'') 3 = Inr [str ''ab'', str ''cdef''] \<and>
   int (length (str ''ab'')) \<le> 3 \<and>
   str ''cdef'' \<in> set (split_chunks (str ''ab cdef'')) \<and>
   filter whitespace (str ''cdef'') = [] \<and> 3 < int (length (str ''cdef''))"
proof -
  have h: "(1::int) \<le> 3" by simp
  from wrap_line_length [OF h, of "str ''ab cdef''"] show ?thesis
    unfolding wrap_ab_cdef split_chunks_ab_cdef by (simp add: str_def whitespace_def)
qed















subsection \<open>Claim C3: wrapping keeps the words\<close>





section \<open>Properties of PDF text escaping\<close>

lemma replace_char_simps:
  "replace_char old new [] = []"
  "replace_char old new (c # s) = (if c = old then new else [c]) @ replace_char old new s"
  by (simp_all add: replace_char_def)

lemma replace_char_hd:
  "replace_char b [a, b] s = y # r \<Longrightarrow> y = a \<or> y \<noteq> b"
  by (cases s) (auto simp: replace_char_simps split: if_splits)

lemma replace_pair_inverse: "replace_pair a b b (replace_char b [a, b] s) = s"
proof (induction s)
  case Nil
  then show ?case by (simp add: replace_char_simps)
next
  case (Cons x s)
  show ?case
  proof (cases "x = b")
    case True
    with Cons show ?thesis by (simp add: replace_char_simps)
  next
    case False
    show ?thesis
    proof (cases "replace_char b [a, b] s")
      case Nil
      with Cons have "s = []" by simp
      with False show ?thesis by (simp add: replace_char_simps)
    next
      case (Cons y r)
      from replace_char_hd [OF Cons] False have "\<not> (x = a \<and> y = b)" by auto
      with False Cons Cons.IH show ?thesis
        by (simp add: replace_char_simps)
    qed
  qed
qed

lemma escape_pdf_text_chars: "escape_pdf_text s = concat (map escape_char s)"
  by (induction s) (auto simp: escape_pdf_text_def replace_char_def escape_char_def)

lemma escaped_escape: "escaped (concat (map escape_char s))"
proof (induction s)
  case Nil
  then show ?case by simp
next
  case (Cons c s)
  show ?case
  proof (cases "c = 92 \<or> c = 40 \<or> c = 41")
    case True
    with Cons show ?thesis by (auto simp: escape_char_def)
  next
    case False
    define e where "e = concat (map escape_char s)"
    from Cons have "escaped e" by (simp add: e_def)
    with False have "escaped (c # e)" by (cases e) auto
    moreover from False have "escape_char c = [c]" by (simp add: escape_char_def)
    ultimately show ?thesis by (simp add: e_def)
  qed
qed

subsection \<open>Claim C4: escaping and its reversal\<close>

text \<open>
  C4: for every input string, \<open>escape_pdf_text\<close> puts a backslash before each backslash,
  opening parenthesis and closing parenthesis and changes nothing else; reversing the
  three escape sequences on the output gives the input back; and the output has no
  unescaped parenthesis or backslash.
\<close>

theorem escape_pdf_text_round_trip:
  "escape_pdf_text s = concat (map escape_char s) \<and>
   unescape_pdf_text (escape_pdf_text s) = s \<and>
   escaped (escape_pdf_text s)"
proof -
  have "unescape_pdf_text (escape_pdf_text s) = s"
    by (simp add: unescape_pdf_text_def escape_pdf_text_def replace_pair_inverse)
  moreover have "escaped (escape_pdf_text s)"
    by (simp add: escape_pdf_text_chars escaped_escape)
  ultimately show ?thesis
    by (simp add: escape_pdf_text_chars)
qed

section \<open>Properties of the PDF serializer\<close>

lemma encode_latin1_Replace: "encode_latin1 Replace s = Inr (map latin1_replace s)"
  by (induction s) (simp_all add: latin1_replace_def)

lemma digit_char_props:
  assumes "d < 10"
  shows "is_digit (digit_char d)" and "digit_value (digit_char d) = d"
proof -
  from assms have "of_char (digit_char d) = 48 + d"
    by (simp add: digit_char_def)
  with assms show "is_digit (digit_char d)" and "digit_value (digit_char d) = d"
    by (simp_all add: is_digit_def digit_value_def)
qed

lemma decimal_digits: "\<forall>c\<in>set (decimal n). is_digit c"
proof (induction n rule: decimal.induct)
  case (1 n)
  show ?case
  proof (cases "n < 10")
    case True
    then show ?thesis
      by (subst decimal.simps) (simp add: digit_char_props)
  next
    case False
    with "1.IH" show ?thesis
      by (subst decimal.simps) (simp add: digit_char_props)
  qed
qed

lemma decimal_value: "foldl (\<lambda>a d. 10 * a + digit_value d) 0 (decimal n) = n"
proof (induction n rule: decimal.induct)
  case (1 n)
  show ?case
  proof (cases "n < 10")
    case True
    then show ?thesis
      by (subst decimal.simps) (simp add: digit_char_props)
  next
    case False
    with "1.IH" show ?thesis
      by (subst decimal.simps) (simp add: digit_char_props)
  qed
qed

lemma read_nat_decimal:
  assumes "r = [] \<or> \<not> is_digit (hd r)"
  shows "read_nat (decimal n @ r) = (n, r)"
proof -
  from assms have r: "takeWhile is_digit r = []" "dropWhile is_digit r = r"
    by (cases r; simp)+
  with decimal_digits [of n] show ?thesis
    by (simp add: read_nat_def takeWhile_append dropWhile_append decimal_value)
qed

lemma read_nat_format_010d: "fst (read_nat (format_010d (int pos))) = pos"
proof -
  define ds where "ds = replicate (10 - length (decimal pos)) CHR ''0'' @ decimal pos"
  have z: "is_digit CHR ''0''" "digit_value CHR ''0'' = 0"
    by (simp_all add: is_digit_def digit_value_def)
  have zeros: "foldl (\<lambda>a d. 10 * a + digit_value d) 0 (replicate k CHR ''0'') = 0" for k
    by (induction k) (simp_all add: z(2))
  have fmt: "format_010d (int pos) = ds"
    by (simp add: format_010d_def ds_def)
  have "\<forall>c\<in>set ds. is_digit c"
    using decimal_digits [of pos] z(1) by (auto simp: ds_def)
  then have "takeWhile is_digit ds = ds"
    by simp
  then have "fst (read_nat ds) = foldl (\<lambda>a d. 10 * a + digit_value d) 0 ds"
    by (simp only: read_nat_def fst_conv)
  also have "\<dots> = pos"
    by (simp add: ds_def zeros decimal_value)
  finally show ?thesis
    by (simp only: fmt)
qed

lemma xref_loop_spec:
  "xref_loop objs (xp, out) = (xp @ offsets (length (concat out)) objs, out @ objs)"
  by (induction objs arbitrary: xp out) (simp_all add: length_concat)

lemma xref_positions_offsets: "xref_positions objs = offsets 9 objs"
  by (simp add: xref_positions_def xref_loop_spec eval_nat_numeral)

lemma output_parts_eq: "output_parts objs = ''%PDF-1.4\<newline>'' # objs"
  by (simp add: output_parts_def xref_loop_spec)

lemma offsets_point_at_parts:
  assumes "\<forall>part\<in>set parts. n \<le> length part"
  shows "map (\<lambda>pos. take n (drop pos (pre @ concat parts @ rest))) (offsets (length pre) parts) =
         map (take n) parts"
  using assms
proof (induction parts arbitrary: pre)
  case Nil
  then show ?case by simp
next
  case (Cons part parts)
  from Cons.prems have "\<forall>part\<in>set parts. n \<le> length part"
    by simp
  from Cons.IH [OF this, of "pre @ part"] Cons.prems show ?case
    by simp
qed


lemma digit_char_1: "digit_char (Suc 0) = CHR ''1''"
  by (simp add: digit_char_def char_of_def bit_Suc_0_iff)

lemma digit_char_simps:
  "digit_char 0 = CHR ''0''" "digit_char 2 = CHR ''2''"
  "digit_char 3 = CHR ''3''" "digit_char 4 = CHR ''4''" "digit_char 5 = CHR ''5''"
  "digit_char 6 = CHR ''6''" "digit_char 7 = CHR ''7''" "digit_char 8 = CHR ''8''"
  "digit_char 9 = CHR ''9''"
  by (simp_all add: digit_char_def char_of_def bit_Suc_0_iff)

lemma format_int_nat: "format_int (int n) = decimal n"
  by (simp add: format_int_def)

lemma objects_heads:
  "map (take 7) (objects cs) =
     [''1 0 obj'', ''2 0 obj'', ''3 0 obj'', ''4 0 obj'', ''5 0 obj'', ''6 0 obj'']"
  by (simp add: objects_def)

lemma objects_long: "\<forall>part\<in>set (objects cs). 7 \<le> length part"
  by (simp add: objects_def)

lemma pdf_of_stream_parts:
  "pdf_of_stream cs =
     ''%PDF-1.4\<newline>'' @ concat (objects cs) @ (concat (xref (objects cs)) @ trailer (objects cs))"
  by (simp add: pdf_of_stream_def output_parts_eq Let_def)

subsection \<open>Claim C5: the cross-reference table\<close>

text \<open>
  C5: in the generated bytes, whatever the content stream, the offsets recorded for the
  cross-reference table are six, the bytes found at the n-th of them are \<open>n 0 obj\<close> for
  n from 1 to 6 (the object ids are 1, 2, ..., 6 in file order), the table stands at the
  offset \<open>xref_start\<close> and lists, after its head and the free entry, one entry for each
  recorded offset in order, and the number written in an entry reads back as that offset.
\<close>

theorem xref_integrity:
  "length (xref_positions (objects cs)) = 6 \<and>
   map (\<lambda>pos. take 7 (drop pos (pdf_of_stream cs))) (xref_positions (objects cs)) =
     [''1 0 obj'', ''2 0 obj'', ''3 0 obj'', ''4 0 obj'', ''5 0 obj'', ''6 0 obj''] \<and>
   drop (xref_start (objects cs)) (pdf_of_stream cs) =
     concat (xref (objects cs)) @ trailer (objects cs) \<and>
   xref (objects cs) =
     [''xref\<newline>'', ''0 7\<newline>'', ''0000000000 65535 f \<newline>''] @
     map (\<lambda>pos. format_010d (int pos) @ '' 00000 n \<newline>'') (xref_positions (objects cs)) \<and>
   map (\<lambda>pos. fst (read_nat (format_010d (int pos)))) (xref_positions (objects cs)) =
     xref_positions (objects cs)"
proof -
  have n: "length (xref_positions (objects cs)) = 6"
    by (simp add: xref_positions_offsets objects_def)
  have "map (\<lambda>pos. take 7 (drop pos (''%PDF-1.4\<newline>'' @ concat (objects cs) @
            (concat (xref (objects cs)) @ trailer (objects cs)))))
          (offsets (length ''%PDF-1.4\<newline>'') (objects cs)) = map (take 7) (objects cs)"
    by (rule offsets_point_at_parts) (rule objects_long)
  then have heads: "map (\<lambda>pos. take 7 (drop pos (pdf_of_stream cs))) (xref_positions (objects cs)) =
      [''1 0 obj'', ''2 0 obj'', ''3 0 obj'', ''4 0 obj'', ''5 0 obj'', ''6 0 obj'']"
    by (simp only: pdf_of_stream_parts xref_positions_offsets objects_heads)
      (simp add: eval_nat_numeral)
  have "xref_start (objects cs) = length (''%PDF-1.4\<newline>'' @ concat (objects cs))"
    by (simp add: xref_start_def output_parts_eq length_concat)
  then have start: "drop (xref_start (objects cs)) (pdf_of_stream cs) =
      concat (xref (objects cs)) @ trailer (objects cs)"
    by (simp only: pdf_of_stream_parts append_assoc [symmetric] append_eq_conv_conj) simp
  have size: "format_int (int (length (objects cs)) + 1) = ''7''"
    by (simp add: objects_def format_int_def decimal.simps digit_char_simps)
  have table: "xref (objects cs) =
      [''xref\<newline>'', ''0 7\<newline>'', ''0000000000 65535 f \<newline>''] @
      map (\<lambda>pos. format_010d (int pos) @ '' 00000 n \<newline>'') (xref_positions (objects cs))"
    by (simp add: xref_def size)
  have reads: "map (\<lambda>pos. fst (read_nat (format_010d (int pos)))) (xref_positions (objects cs)) =
      xref_positions (objects cs)"
    by (simp add: read_nat_format_010d)
  from n heads start table reads show ?thesis
    by (intro conjI)
qed

subsection \<open>Claim C6: the length of the content stream\<close>

text \<open>
  C6: object 6 is \<open>6 0 obj\<close>, \<open><< /Length\<close>, a decimal number, \<open>>>\<close>,
  \<open>stream\<close> and a line feed, the stream payload, \<open>endstream\<close>; the number read after
  \<open>/Length\<close> is exactly the number of bytes of the payload.
\<close>

theorem stream_length_exact:
  "\<exists>rest. objects cs ! 5 = ''6 0 obj\<newline><< /Length '' @ rest \<and>
      read_nat rest = (length cs, '' >>\<newline>stream\<newline>'' @ cs @ ''endstream\<newline>endobj\<newline>'')"
proof -
  let ?after = "'' >>\<newline>stream\<newline>'' @ cs @ ''endstream\<newline>endobj\<newline>''"
  have "\<not> is_digit (hd ?after)"
    by (simp add: is_digit_def)
  then have "read_nat (decimal (length cs) @ ?after) = (length cs, ?after)"
    by (intro read_nat_decimal) simp
  moreover have "objects cs ! 5 = ''6 0 obj\<newline><< /Length '' @ decimal (length cs) @ ?after"
    by (simp add: objects_def format_int_nat)
  ultimately show ?thesis
    by blast
qed

lemma encode_latin1_Strict_euro: "encode_latin1 Strict [8364] = Inl UnicodeEncodeError"
  by simp

subsection \<open>Claim C8: encoding the content stream\<close>

text \<open>
  C8: for every list of placements, whatever their texts, building the content stream
  returns bytes and raises no encoding error: a character below 256 is encoded as itself
  and every other one as a question mark. (Under \<open>"strict"\<close> the same text would raise.)
\<close>

theorem content_stream_never_errors:
  "content_stream lines = Inr (map latin1_replace (concat (content lines))) \<and>
   pdf_bytes lines = Inr (pdf_of_stream (map latin1_replace (concat (content lines))))"
  by (simp add: pdf_bytes_def content_stream_def encode_latin1_Replace)

section \<open>Properties of the layout\<close>

lemma above_add_text:
  assumes "above lines y" and "0 < d"
  shows "above (add_text lines txt x y font sz) (y - d)"
  using assms
  by (auto simp: above_def add_text_def sorted_wrt_append list_all_iff)

lemma above_lower: "above lines y \<Longrightarrow> y' \<le> y \<Longrightarrow> above lines y'"
  by (auto simp: above_def list_all_iff)

lemma body_loop_above:
  "above lines y \<Longrightarrow> body_loop lines y body = (ls, y') \<Longrightarrow> above ls y'"
proof (induction body arbitrary: lines y)
  case Nil
  then show ?case by simp
next
  case (Cons line body)
  from Cons.prems(1) have
    "above (add_text lines line MARGIN_X y (str ''Helvetica'') BODY_SIZE) (y - LEADING)"
    by (rule above_add_text) (simp add: LEADING_def)
  from Cons.IH [OF this] Cons.prems(2) show ?case
    by simp
qed

lemma wrapped_loop_above:
  "above lines y \<Longrightarrow> wrapped_loop lines y i wrapped = (ls, y') \<Longrightarrow> above ls y'"
proof (induction wrapped arbitrary: lines y i)
  case Nil
  then show ?case by simp
next
  case (Cons line wrapped)
  let ?prefix = "if i = 0 then str ''- '' else str ''  ''"
  from Cons.prems(1) have
    "above (add_text lines (?prefix @ line) MARGIN_X y (str ''Helvetica'') BODY_SIZE) (y - LEADING)"
    by (rule above_add_text) (simp add: LEADING_def)
  from Cons.IH [OF this] Cons.prems(2) show ?case
    by (simp add: Let_def)
qed

lemma items_loop_above:
  "above lines y \<Longrightarrow> items_loop lines y items = Inr (ls, y') \<Longrightarrow> above ls y'"
proof (induction items arbitrary: lines y)
  case Nil
  then show ?case by simp
next
  case (Cons item items)
  from Cons.prems(2) obtain wrapped l1 y1 where
    w: "wrapped_loop lines y 0 wrapped = (l1, y1)" and r: "items_loop l1 y1 items = Inr (ls, y')"
    by (auto split: sum.splits prod.splits)
  from wrapped_loop_above [OF Cons.prems(1) w] have "above l1 y1" .
  from Cons.IH [OF this r] show ?case .
qed

lemma layout_section_above:
  assumes "above lines y" and "layout_section lines y s = Inr (ls, y')"
  shows "above ls y'"
proof (cases s)
  case (Title t)
  with assms(2) show ?thesis by simp
next
  case (Section title body)
  from assms(1) have h:
    "above (add_text lines title MARGIN_X y (str ''Helvetica-Bold'') HEADING_SIZE) (y - 16)"
    by (rule above_add_text) simp
  from assms(2) Section obtain y1 where
    b: "body_loop (add_text lines title MARGIN_X y (str ''Helvetica-Bold'') HEADING_SIZE)
       (y - 16) body = (ls, y1)" and y': "y' = y1 - 4"
    by (auto split: prod.splits)
  from body_loop_above [OF h b] have "above ls y1" .
  then show ?thesis
    unfolding y' by (rule above_lower) simp
next
  case (Bullets title items)
  from assms(1) have h:
    "above (add_text lines title MARGIN_X y (str ''Helvetica-Bold'') HEADING_SIZE) (y - 16)"
    by (rule above_add_text) simp
  from assms(2) Bullets obtain y1 where
    b: "items_loop (add_text lines title MARGIN_X y (str ''Helvetica-Bold'') HEADING_SIZE)
       (y - 16) items = Inr (ls, y1)" and y': "y' = y1 - 4"
    by (auto split: sum.splits prod.splits)
  from items_loop_above [OF h b] have "above ls y1" .
  then show ?thesis
    unfolding y' by (rule above_lower) simp
qed

lemma sections_loop_above:
  "above lines y \<Longrightarrow> sections_loop lines y ss = Inr (ls, y') \<Longrightarrow> above ls y'"
proof (induction ss arbitrary: lines y)
  case Nil
  then show ?case by simp
next
  case (Cons s ss)
  from Cons.prems(2) obtain l1 y1 where
    s: "layout_section lines y s = Inr (l1, y1)"
    by (auto split: sum.splits)
  from layout_section_above [OF Cons.prems(1) s] have a: "above l1 y1" .
  show ?case
  proof (cases "y1 < MARGIN_BOTTOM")
    case True
    with Cons.prems(2) s a show ?thesis by simp
  next
    case False
    with Cons.prems(2) s have "sections_loop l1 y1 ss = Inr (ls, y')" by simp
    from Cons.IH [OF a this] show ?thesis .
  qed
qed

lemma layout_state_above:
  assumes "layout_state sections = Inr (ls, y')"
  shows "above ls y'"
proof -
  from assms obtain t rest where
    r: "sections_loop
          (add_text [] t MARGIN_X (PAGE_HEIGHT - MARGIN_TOP) (str ''Helvetica-Bold'') TITLE_SIZE)
          (PAGE_HEIGHT - MARGIN_TOP - 22) rest = Inr (ls, y')"
    by (auto simp: layout_state_def split: list.splits section_dict.splits)
  have "above [] (PAGE_HEIGHT - MARGIN_TOP)"
    by (simp add: above_def)
  then have "above
      (add_text [] t MARGIN_X (PAGE_HEIGHT - MARGIN_TOP) (str ''Helvetica-Bold'') TITLE_SIZE)
      (PAGE_HEIGHT - MARGIN_TOP - 22)"
    by (rule above_add_text) simp
  from sections_loop_above [OF this r] show ?thesis .
qed

lemma body_loop_closed_from:
  "body_loop lines (y - LEADING * int n) body =
     (lines @ map (\<lambda>(i, line). body_placement line (y - LEADING * int i)) (enumerate n body),
      y - LEADING * int (n + length body))"
proof (induction body arbitrary: lines n)
  case Nil
  then show ?case by simp
next
  case (Cons line body)
  have y: "y - LEADING * int n - LEADING = y - LEADING * int (Suc n)"
    by (simp add: algebra_simps)
  from Cons.IH [of _ "Suc n"] show ?case
    by (simp add: y add_text_def body_placement_def)
qed

lemma body_loop_closed:
  "body_loop lines y body =
     (lines @ map (\<lambda>(i, line). body_placement line (y - LEADING * int i)) (enumerate 0 body),
      y - LEADING * int (length body))"
  using body_loop_closed_from [of lines y 0 body] by simp









lemmas layout_constants =
  PAGE_HEIGHT_def MARGIN_TOP_def MARGIN_BOTTOM_def MARGIN_X_def TITLE_SIZE_def HEADING_SIZE_def
  BODY_SIZE_def LEADING_def

lemma layout_state_long_section: "layout_state long_section = Inr (long_section_lines, - 4)"
  by (simp add: layout_state_def long_section_def long_section_lines_def body_loop_closed
      add_text_def layout_constants)






subsection \<open>Claim C1: truncation on overflow\<close>




subsection \<open>Claim C9: the baselines decrease strictly\<close>

text \<open>
  C9: for every section list that \<open>layout\<close> accepts, the y coordinates of the placements
  decrease strictly in list order.
\<close>

theorem baselines_strictly_decreasing:
  assumes "layout sections = Inr lines"
  shows "sorted_wrt (\<lambda>a b. b < a) (map pl_y lines)"
proof -
  from assms obtain y' where "layout_state sections = Inr (lines, y')"
    by (cases "layout_state sections") (auto simp: layout_def)
  from layout_state_above [OF this] show ?thesis
    by (simp add: above_def)
qed

lemma split_chunks_c_d: "split_chunks (str ''c d'') = [str ''c'', str '' '', str ''d'']"
  by (simp add: split_chunks_def munge_whitespace_def expandtabs_def
      translate_whitespace_def whitespace_def split_text_Nil split_text_Cons str_def)

lemma wrap_c_d: "wrap (str ''c d'') MAX_CHARS_BODY_INDENT = Inr [str ''c d'']"
  unfolding wrap_def split_chunks_c_d
  by (simp add: wrap_chunks_def wrap_chunks_body_def strip_def isspace_def str_def
      MAX_CHARS_BODY_INDENT_def)

lemma layout_small_example: "layout small_example = Inr small_example_lines"
  by (simp add: layout_def layout_state_def small_example_def small_example_lines_def
      wrap_c_d add_text_def layout_constants) (simp add: str_def)

theorem baselines_strictly_decreasing_witness:
  "layout small_example = Inr small_example_lines \<and>
   map pl_y small_example_lines = [738, 716, 700, 682, 666] \<and>
   sorted_wrt (\<lambda>a b. b < a) (map pl_y small_example_lines)"
  using baselines_strictly_decreasing [OF layout_small_example]
  by (simp add: layout_small_example) (simp add: small_example_lines_def)

subsection \<open>Claim C10: drawing below the bottom margin\<close>

text \<open>
  C10: there is a section list for which \<open>lines\<close> holds a placement whose y coordinate is
  below \<open>MARGIN_BOTTOM\<close>: a title and one section of fifty body lines, the last of them
  at y = 14.
\<close>

theorem drawing_below_bottom_margin:
  "\<exists>sections lines p. layout sections = Inr lines \<and> p \<in> set lines \<and> pl_y p < MARGIN_BOTTOM"
proof -
  have "layout long_section = Inr long_section_lines"
    by (simp add: layout_def layout_state_long_section)
  moreover have "(49, str ''x'') \<in> set (enumerate 0 (replicate 50 (str ''x'')))"
    by (simp add: in_set_enumerate_eq)
  then have "body_placement (str ''x'') (700 - 14 * int 49) \<in> set long_section_lines"
    unfolding long_section_lines_def by force
  moreover have "pl_y (body_placement (str ''x'') (700 - 14 * int 49)) < MARGIN_BOTTOM"
    by (simp add: body_placement_def MARGIN_BOTTOM_def)
  ultimately show ?thesis
    by blast
qed

end
